theory Spec2Isabelle
  imports Main "HOL-Library.Sublist"
begin

section \<open>The template parser of \<open>py3status/modules/mpd_status.py\<close>\<close>

text \<open>
  A template is a Python \<open>str\<close>, modelled as a list of characters. The value getter is the
  callable that turns a placeholder name into its text; the caller builds it from
  \<open>song_attr\<close>, so it is a function from strings to strings, and Python's truth test
  \<open>if value\<close> on a \<open>str\<close> is the test for the non-empty string.
\<close>

type_synonym value_getter = "string \<Rightarrow> string"

text \<open>
  \<open>ast.literal_eval('"\\{}"'.format(ln))\<close> for \<open>ln\<close> one of \<open>abtnvfr\<close>: the control
  character that the Python string escape denotes.
\<close>

definition escape_letters :: "char set" where
  "escape_letters = set ''abtnvfr''"

definition escape_char :: "char \<Rightarrow> char" where
  "escape_char c =
     (if c = CHR ''a'' then CHR 0x07
      else if c = CHR ''b'' then CHR 0x08
      else if c = CHR ''t'' then CHR 0x09
      else if c = CHR ''n'' then CHR 0x0A
      else if c = CHR ''v'' then CHR 0x0B
      else if c = CHR ''f'' then CHR 0x0C
      else if c = CHR ''r'' then CHR 0x0D
      else c)"

text \<open>
  \<open>itertools.takewhile(lambda e: e != endchar, instr)\<close> on the shared iterator: the key is
  the characters before the first \<open>endchar\<close>; the iterator has then been advanced past
  that \<open>endchar\<close> too (or is exhausted when there is none).
\<close>

definition scan_key :: "char \<Rightarrow> string \<Rightarrow> string" where
  "scan_key endchar instr = takeWhile (\<lambda>e. e \<noteq> endchar) instr"

definition after_key :: "char \<Rightarrow> string \<Rightarrow> string" where
  "after_key endchar instr = drop 1 (dropWhile (\<lambda>e. e \<noteq> endchar) instr)"

text \<open>
  The body of \<open>parse_template\<close>: the \<open>for char in instr\<close> loop with its local state
  \<open>found\<close> and \<open>ret\<close> (a list of strings, joined on return). The iterator \<open>instr\<close> is
  shared with every recursive call (\<open>iter\<close> of an iterator is the iterator itself), so
  the model returns what is left of it as the third component of the result. This
  function is the loop on an interpreter with room for every recursive call;
  \<open>parse_loop_limited\<close> below is the loop under the interpreter's recursion limit.
\<close>

function parse_loop ::
  "value_getter \<Rightarrow> string \<Rightarrow> bool \<Rightarrow> string list \<Rightarrow> string \<times> bool \<times> string"
where
  "parse_loop vg [] found ret = (concat ret, found, [])"
| "parse_loop vg (c # instr) found ret =
     (if c = CHR ''%'' \<or> c = CHR ''{'' then
        (let endchar = (if c = CHR ''%'' then CHR ''%'' else CHR ''}'');
             key = scan_key endchar instr;
             val = vg key
         in if val \<noteq> [] then parse_loop vg (after_key endchar instr) True (ret @ [val])
            else parse_loop vg (after_key endchar instr) False ret)
      else if c = CHR ''#'' then
        (case instr of
           [] \<Rightarrow> parse_loop vg [] found (ret @ [''#''])
         | n # instr' \<Rightarrow> parse_loop vg instr' found (ret @ [[n]]))
      else if c = CHR 0x5C then
        (case instr of
           [] \<Rightarrow> parse_loop vg [] found (ret @ [[CHR 0x5C]])
         | ln # instr' \<Rightarrow>
             if ln \<in> escape_letters then parse_loop vg instr' found (ret @ [[escape_char ln]])
             else parse_loop vg instr' found (ret @ [[ln]]))
      else if c = CHR ''['' then
        (case parse_loop vg instr found [] of
           (subret, found', instr') \<Rightarrow> parse_loop vg instr' found' (ret @ [subret]))
      else if c = CHR '']'' then
        (if found then (concat ret, True, instr) else ([], False, instr))
      else if c = CHR ''|'' then
        (case parse_loop vg instr found [] of
           (subret, subfound, instr') \<Rightarrow>
             if found then parse_loop vg instr' found ret
             else if subfound then parse_loop vg instr' True (ret @ [subret])
             else ([], False, instr'))
      else if c = CHR ''&'' then
        (case parse_loop vg instr found [] of
           (subret, subfound, instr') \<Rightarrow>
             if found \<and> subfound then parse_loop vg instr' found (ret @ [subret])
             else ([], False, instr'))
      else parse_loop vg instr found (ret @ [[c]]))"
  by pat_completeness auto

lemma after_key_suffix: "suffix (after_key e instr) instr"
proof -
  have "suffix (after_key e instr) (dropWhile (\<lambda>x. x \<noteq> e) instr)"
    unfolding after_key_def by (rule suffix_drop)
  also have "suffix \<dots> instr"
    by (rule suffix_dropWhile)
  finally show ?thesis .
qed

lemma parse_loop_dom_suffix:
  "parse_loop_dom (vg, instr, found, ret) \<Longrightarrow>
   parse_loop vg instr found ret = (out, f, rest) \<Longrightarrow> suffix rest instr"
proof (induction vg instr found ret arbitrary: out f rest rule: parse_loop.pinduct)
  case (1 vg found ret)
  then show ?case by (simp add: parse_loop.psimps)
next
  case (2 vg c instr found ret)
  note unf = parse_loop.psimps(2) [OF "2.hyps"]
  note res = "2.prems" [unfolded unf]
  have up: "suffix r (c # instr)" if "suffix r i" "suffix i instr" for r i
    using that by (meson suffix_ConsI suffix_order.trans)
  consider (ph) "c = CHR ''%'' \<or> c = CHR ''{''"
    | (hash) "c = CHR ''#''"
    | (bs) "c = CHR 0x5C"
    | (opn) "c = CHR ''[''"
    | (cls) "c = CHR '']''"
    | (alt) "c = CHR ''|''"
    | (conj) "c = CHR ''&''"
    | (lit) "\<not> (c = CHR ''%'' \<or> c = CHR ''{'')" "c \<noteq> CHR ''#''" "c \<noteq> CHR 0x5C"
        "c \<noteq> CHR ''[''" "c \<noteq> CHR '']''" "c \<noteq> CHR ''|''" "c \<noteq> CHR ''&''"
    by blast
  then show ?case
  proof cases
    case ph
    define e where "e = (if c = CHR ''%'' then CHR ''%'' else CHR ''}'')"
    have "suffix rest (after_key e instr)"
    proof (cases "vg (scan_key e instr) = []")
      case True
      with ph res have "parse_loop vg (after_key e instr) False ret = (out, f, rest)"
        by (simp add: e_def Let_def)
      with "2.IH"(2) [OF ph e_def refl refl] True show ?thesis
        by simp
    next
      case False
      with ph res have
        "parse_loop vg (after_key e instr) True (ret @ [vg (scan_key e instr)]) = (out, f, rest)"
        by (simp add: e_def Let_def)
      with "2.IH"(1) [OF ph e_def refl refl] False show ?thesis
        by simp
    qed
    then show ?thesis
      by (rule up) (rule after_key_suffix)
  next
    case hash
    then have n: "\<not> (c = CHR ''%'' \<or> c = CHR ''{'')"
      by simp
    show ?thesis
    proof (cases instr)
      case Nil
      with res hash "2.IH"(3) [OF n hash Nil] have "suffix rest []"
        by simp
      with Nil show ?thesis by simp
    next
      case (Cons d instr')
      with res hash "2.IH"(4) [OF n hash Cons] have "suffix rest instr'"
        by simp
      then show ?thesis
        by (rule up) (simp add: Cons suffix_ConsI)
    qed
  next
    case bs
    then have n: "\<not> (c = CHR ''%'' \<or> c = CHR ''{'')" "c \<noteq> CHR ''#''"
      by simp_all
    show ?thesis
    proof (cases instr)
      case Nil
      with res bs "2.IH"(5) [OF n bs Nil] have "suffix rest []"
        by simp
      with Nil show ?thesis by simp
    next
      case (Cons ln instr')
      have "suffix rest instr'"
      proof (cases "ln \<in> escape_letters")
        case True
        with res bs Cons "2.IH"(6) [OF n bs Cons True] show ?thesis
          by simp
      next
        case False
        with res bs Cons "2.IH"(7) [OF n bs Cons False] show ?thesis
          by simp
      qed
      then show ?thesis
        by (rule up) (simp add: Cons suffix_ConsI)
    qed
  next
    case opn
    then have n: "\<not> (c = CHR ''%'' \<or> c = CHR ''{'')" "c \<noteq> CHR ''#''" "c \<noteq> CHR 0x5C"
      by simp_all
    obtain subret found' instr' where sub: "parse_loop vg instr found [] = (subret, found', instr')"
      by (cases "parse_loop vg instr found []") auto
    have l1: "suffix instr' instr"
      using "2.IH"(8) [OF n opn sub] .
    from res have "parse_loop vg instr' found' (ret @ [subret]) = (out, f, rest)"
      by (simp add: n opn sub)
    then have "suffix rest instr'"
      by (rule "2.IH"(9) [OF n opn sub [symmetric] refl])
    then show ?thesis
      using l1 by (rule up)
  next
    case cls
    with res have "rest = instr"
      by (auto split: if_splits)
    then show ?thesis
      by (simp add: suffix_ConsI)
  next
    case alt
    then have n: "\<not> (c = CHR ''%'' \<or> c = CHR ''{'')" "c \<noteq> CHR ''#''" "c \<noteq> CHR 0x5C"
      "c \<noteq> CHR ''[''" "c \<noteq> CHR '']''"
      by simp_all
    obtain subret subfound instr' where sub: "parse_loop vg instr found [] = (subret, subfound, instr')"
      by (cases "parse_loop vg instr found []") auto
    have l1: "suffix instr' instr"
      using "2.IH"(10) [OF n alt sub] .
    note ih1 = "2.IH"(11) [OF n alt sub [symmetric] refl]
    note ih2 = "2.IH"(12) [OF n alt sub [symmetric] refl]
    from res have r: "(if found then parse_loop vg instr' found ret
        else if subfound then parse_loop vg instr' True (ret @ [subret])
        else ([], False, instr')) = (out, f, rest)"
      by (simp add: n alt sub)
    have "suffix rest instr'"
    proof (cases found)
      case True
      with r ih1 show ?thesis by simp
    next
      case False
      show ?thesis
      proof (cases subfound)
        case True
        with r \<open>\<not> found\<close> ih2 show ?thesis by simp
      next
        case False
        with r \<open>\<not> found\<close> show ?thesis by simp
      qed
    qed
    then show ?thesis
      using l1 by (rule up)
  next
    case conj
    then have n: "\<not> (c = CHR ''%'' \<or> c = CHR ''{'')" "c \<noteq> CHR ''#''" "c \<noteq> CHR 0x5C"
      "c \<noteq> CHR ''[''" "c \<noteq> CHR '']''" "c \<noteq> CHR ''|''"
      by simp_all
    obtain subret subfound instr' where sub: "parse_loop vg instr found [] = (subret, subfound, instr')"
      by (cases "parse_loop vg instr found []") auto
    have l1: "suffix instr' instr"
      using "2.IH"(13) [OF n conj sub] .
    note ih = "2.IH"(14) [OF n conj sub [symmetric] refl]
    from res have r: "(if found \<and> subfound then parse_loop vg instr' found (ret @ [subret])
        else ([], False, instr')) = (out, f, rest)"
      by (simp add: n conj sub)
    have "suffix rest instr'"
    proof (cases "found \<and> subfound")
      case True
      with r ih show ?thesis by simp
    next
      case False
      with r show ?thesis by auto
    qed
    then show ?thesis
      using l1 by (rule up)
  next
    case lit
    from res lit have "parse_loop vg instr found (ret @ [[c]]) = (out, f, rest)"
      by simp
    then have "suffix rest instr"
      by (rule "2.IH"(15) [OF lit])
    then show ?thesis
      by (rule suffix_ConsI)
  qed
qed

lemma parse_loop_dom_length:
  "parse_loop_dom (vg, instr, found, ret) \<Longrightarrow>
   parse_loop vg instr found ret = (out, f, rest) \<Longrightarrow> length rest \<le> length instr"
  by (rule suffix_length_le) (rule parse_loop_dom_suffix)

lemma after_key_length: "length (after_key e instr) \<le> length instr"
  by (rule suffix_length_le) (rule after_key_suffix)

lemma parse_loop_all_dom: "All parse_loop_dom"
proof (relation "measure (\<lambda>(vg, instr, found, ret). length instr)")
  show "wf (measure (\<lambda>(vg, instr, found, ret). length instr))" by simp
qed (auto simp: after_key_length less_Suc_eq_le dest: parse_loop_dom_length [OF _ sym])

termination parse_loop
  by (rule parse_loop_all_dom)

lemma parse_loop_total: "parse_loop_dom (vg, instr, found, ret)"
  using parse_loop_all_dom by simp

lemma parse_loop_suffix:
  "parse_loop vg instr found ret = (out, f, rest) \<Longrightarrow> suffix rest instr"
  by (rule parse_loop_dom_suffix [OF parse_loop_total])

text \<open>
  One call of \<open>parse_template(instr, value_getter, found)\<close>: \<open>ret\<close> starts empty. The
  result is the returned pair together with what the call left of the iterator.
\<close>

definition parse_template :: "string \<Rightarrow> value_getter \<Rightarrow> bool \<Rightarrow> string \<times> bool \<times> string" where
  "parse_template instr vg found = parse_loop vg instr found []"

text \<open>
  The call the module makes, \<open>parse_template(self.format, attr_getter)\<close>: \<open>found\<close> takes
  its default \<open>True\<close>, and the caller sees the returned pair only.
\<close>

definition render :: "string \<Rightarrow> value_getter \<Rightarrow> string \<times> bool" where
  "render template vg =
     (case parse_template template vg True of (text, found, instr') \<Rightarrow> (text, found))"

text \<open>
  A value getter backed by a dictionary, empty text for a missing key, as the last line
  of \<open>song_attr\<close> (\<open>song.get(attr, '')\<close>) resolves an ordinary field.
\<close>

definition dict_getter :: "(string \<rightharpoonup> string) \<Rightarrow> value_getter" where
  "dict_getter song attr = (case song attr of None \<Rightarrow> [] | Some v \<Rightarrow> v)"

text \<open>
  The characters for which the loop takes its last branch, \<open>ret.append(char)\<close>: every
  character but the two placeholder markers, the two escape markers, the brackets and
  the two operators.
\<close>

definition plain_char :: "char \<Rightarrow> bool" where
  "plain_char c = (c \<notin> set ''%{#[]|&'' \<and> c \<noteq> CHR 0x5C)"

text \<open>
  The shapes of the three \<open>return\<close> statements: at the end of the input, at a \<open>]\<close>
  with \<open>found\<close> set, and with the empty text and \<open>False\<close>.
\<close>

definition returned :: "string \<times> bool \<times> string \<Rightarrow> bool" where
  "returned r = (case r of (out, f, rest) \<Rightarrow> rest = [] \<or> f \<or> out = [])"

section \<open>The attribute resolver \<open>song_attr\<close>\<close>

text \<open>
  A song is the dictionary that the MPD client returns for one track: field names to
  text. The two exceptions that the resolver can meet are values of \<open>error\<close>, and a
  computation that may raise returns \<open>error + 'a\<close>.
\<close>

type_synonym song = "string \<rightharpoonup> string"

datatype error = KeyError | ValueError

text \<open>
  The Python library calls of \<open>song_attr\<close>, whose results depend on the interpreter and
  on the locale, are parameters of the model:
  \<^item> \<open>py_int s\<close> is \<open>int(s)\<close>, with \<open>None\<close> for \<open>ValueError\<close>;
  \<^item> \<open>strptime s\<close> is \<open>datetime.datetime.strptime(s, '%Y-%m-%dT%H:%M:%SZ')\<close>, with
    \<open>None\<close> for \<open>ValueError\<close>;
  \<^item> \<open>strftime d fmt\<close> is \<open>d.strftime(fmt)\<close>.
\<close>

record 'd pylib =
  py_int :: "string \<Rightarrow> int option"
  strptime :: "string \<Rightarrow> 'd option"
  strftime :: "'d \<Rightarrow> string \<Rightarrow> string"

text \<open>Decimal digits of a natural number, most significant first.\<close>

definition digit_char :: "nat \<Rightarrow> char" where
  "digit_char n = ''0123456789'' ! (n mod 10)"

fun decimal :: "nat \<Rightarrow> string" where
  "decimal n = (if n < 10 then [digit_char n] else decimal (n div 10) @ [digit_char (n mod 10)])"

text \<open>\<open>'{:d}'.format(i)\<close> and \<open>'{}'.format(i)\<close> for an integer \<open>i\<close>.\<close>

definition format_d :: "int \<Rightarrow> string" where
  "format_d i = (if i < 0 then CHR ''-'' # decimal (nat (- i)) else decimal (nat i))"

text \<open>
  \<open>'{:02d}'.format(i)\<close>: the sign, then the digits filled with zeros on the left up to
  a total width of two characters.
\<close>

definition format_02d :: "int \<Rightarrow> string" where
  "format_02d i =
     (if i < 0 then CHR ''-'' # decimal (nat (- i))
      else replicate (2 - length (decimal (nat i))) CHR ''0'' @ decimal (nat i))"

text \<open>\<open>song[key]\<close>: the value, or \<open>KeyError\<close>.\<close>

definition subscript :: "song \<Rightarrow> string \<Rightarrow> error + string" where
  "subscript song key = (case song key of None \<Rightarrow> Inl KeyError | Some v \<Rightarrow> Inr v)"

text \<open>\<open>int(song[key])\<close>: \<open>KeyError\<close> from the lookup, \<open>ValueError\<close> from the conversion.\<close>

definition int_field :: "'d pylib \<Rightarrow> song \<Rightarrow> string \<Rightarrow> error + int" where
  "int_field lib song key =
     (case subscript song key of
        Inl e \<Rightarrow> Inl e
      | Inr v \<Rightarrow> (case py_int lib v of None \<Rightarrow> Inl ValueError | Some i \<Rightarrow> Inr i))"

text \<open>The handler \<open>except (KeyError, ValueError): return ''\<close>.\<close>

fun except_key_value :: "error + string \<Rightarrow> error + string" where
  "except_key_value (Inl KeyError) = Inr []"
| "except_key_value (Inl ValueError) = Inr []"
| "except_key_value (Inr s) = Inr s"

text \<open>The body of the \<open>try\<close> block for \<open>time\<close>.\<close>

definition try_time :: "'d pylib \<Rightarrow> song \<Rightarrow> error + string" where
  "try_time lib song =
     (case int_field lib song ''time'' of
        Inl e \<Rightarrow> Inl e
      | Inr duration \<Rightarrow>
          if duration > 0 then
            (let minutes = duration div 60; seconds = duration mod 60
             in Inr (format_d minutes @ '':'' @ format_02d seconds))
          else Inl ValueError)"

text \<open>The body of the \<open>try\<close> block for \<open>position\<close>.\<close>

definition try_position :: "'d pylib \<Rightarrow> song \<Rightarrow> error + string" where
  "try_position lib song =
     (case int_field lib song ''pos'' of
        Inl e \<Rightarrow> Inl e
      | Inr pos \<Rightarrow> Inr (format_d (pos + 1)))"

text \<open>
  \<open>parse_mtime(song['last-modified']).strftime(fmt)\<close>, which no handler surrounds: the
  lookup is evaluated first, then the parse, then the rendering.
\<close>

definition parse_mtime :: "'d pylib \<Rightarrow> string \<Rightarrow> error + 'd" where
  "parse_mtime lib date_str =
     (case strptime lib date_str of None \<Rightarrow> Inl ValueError | Some d \<Rightarrow> Inr d)"

definition last_modified :: "'d pylib \<Rightarrow> song \<Rightarrow> string \<Rightarrow> error + string" where
  "last_modified lib song fmt =
     (case subscript song ''last-modified'' of
        Inl e \<Rightarrow> Inl e
      | Inr date_str \<Rightarrow>
          (case parse_mtime lib date_str of
             Inl e \<Rightarrow> Inl e
           | Inr d \<Rightarrow> Inr (strftime lib d fmt)))"

definition song_attr :: "'d pylib \<Rightarrow> song \<Rightarrow> string \<Rightarrow> error + string" where
  "song_attr lib song attr =
     (if attr = ''time'' then except_key_value (try_time lib song)
      else if attr = ''position'' then except_key_value (try_position lib song)
      else if attr = ''mtime'' then last_modified lib song ''%c''
      else if attr = ''mdate'' then last_modified lib song ''%x''
      else Inr (case song attr of None \<Rightarrow> [] | Some v \<Rightarrow> v))"

text \<open>
  A library instance for evaluating examples: \<open>int\<close> on an optional sign followed by
  decimal digits, and a timestamp kept as the text it was read from.
\<close>

definition digit_value :: "char \<Rightarrow> nat option" where
  "digit_value c =
     (if c \<in> set ''0123456789'' then Some (of_char c - 48) else None)"

fun digits_value :: "nat \<Rightarrow> string \<Rightarrow> nat option" where
  "digits_value acc [] = Some acc"
| "digits_value acc (c # cs) =
     (case digit_value c of None \<Rightarrow> None | Some d \<Rightarrow> digits_value (10 * acc + d) cs)"

definition int_decimal :: "string \<Rightarrow> int option" where
  "int_decimal s =
     (case s of
        [] \<Rightarrow> None
      | c # cs \<Rightarrow>
          if c = CHR ''-'' then
            (if cs = [] then None else map_option (\<lambda>n. - int n) (digits_value 0 cs))
          else if c = CHR ''+'' then
            (if cs = [] then None else map_option int (digits_value 0 cs))
          else map_option int (digits_value 0 s))"

definition example_lib :: "string pylib" where
  "example_lib =
     \<lparr>py_int = int_decimal, strptime = (\<lambda>s. Some s), strftime = (\<lambda>d fmt. d)\<rparr>"

section \<open>The width limit of \<open>current_track\<close>\<close>

text \<open>The slice \<open>text[:j]\<close>: a negative \<open>j\<close> counts from the end of the text.\<close>

definition slice_to :: "int \<Rightarrow> string \<Rightarrow> string" where
  "slice_to j text =
     (if j < 0 then take (nat (int (length text) + j)) text else take (nat j) text)"

text \<open>
  The statement \<open>if len(text) > self.max_width: text = text[:-self.max_width - 3] + '...'\<close>,
  as a function of the configured width and the text.
\<close>

definition limit_width :: "int \<Rightarrow> string \<Rightarrow> string" where
  "limit_width max_width text =
     (if int (length text) > max_width then slice_to (- max_width - 3) text @ ''...''
      else text)"

section \<open>The branches of the loop\<close>

lemmas parse_loop_Cons = parse_loop.simps(2)

declare parse_loop.simps(2) [simp del]

lemma parse_loop_percent:
  "parse_loop vg (CHR ''%'' # instr) found ret =
     (if vg (scan_key CHR ''%'' instr) \<noteq> []
      then parse_loop vg (after_key CHR ''%'' instr) True (ret @ [vg (scan_key CHR ''%'' instr)])
      else parse_loop vg (after_key CHR ''%'' instr) False ret)"
  by (simp add: parse_loop_Cons Let_def)

lemma parse_loop_brace:
  "parse_loop vg (CHR ''{'' # instr) found ret =
     (if vg (scan_key CHR ''}'' instr) \<noteq> []
      then parse_loop vg (after_key CHR ''}'' instr) True (ret @ [vg (scan_key CHR ''}'' instr)])
      else parse_loop vg (after_key CHR ''}'' instr) False ret)"
  by (simp add: parse_loop_Cons Let_def)

lemma parse_loop_hash:
  "parse_loop vg (CHR ''#'' # instr) found ret =
     (case instr of
        [] \<Rightarrow> (concat ret @ ''#'', found, [])
      | n # instr' \<Rightarrow> parse_loop vg instr' found (ret @ [[n]]))"
  by (simp add: parse_loop_Cons split: list.split)

lemma parse_loop_backslash:
  "parse_loop vg (CHR 0x5C # instr) found ret =
     (case instr of
        [] \<Rightarrow> (concat ret @ [CHR 0x5C], found, [])
      | ln # instr' \<Rightarrow>
          parse_loop vg instr' found
            (ret @ [[if ln \<in> escape_letters then escape_char ln else ln]]))"
  by (simp add: parse_loop_Cons split: list.split)

lemma parse_loop_open:
  "parse_loop vg (CHR ''['' # instr) found ret =
     (case parse_loop vg instr found [] of
        (subret, found', instr') \<Rightarrow> parse_loop vg instr' found' (ret @ [subret]))"
  by (simp add: parse_loop_Cons)

lemma parse_loop_close:
  "parse_loop vg (CHR '']'' # instr) found ret =
     (if found then (concat ret, True, instr) else ([], False, instr))"
  by (simp add: parse_loop_Cons)

lemma parse_loop_alt:
  "parse_loop vg (CHR ''|'' # instr) found ret =
     (case parse_loop vg instr found [] of
        (subret, subfound, instr') \<Rightarrow>
          if found then parse_loop vg instr' found ret
          else if subfound then parse_loop vg instr' True (ret @ [subret])
          else ([], False, instr'))"
  by (simp add: parse_loop_Cons)

lemma parse_loop_conj:
  "parse_loop vg (CHR ''&'' # instr) found ret =
     (case parse_loop vg instr found [] of
        (subret, subfound, instr') \<Rightarrow>
          if found \<and> subfound then parse_loop vg instr' found (ret @ [subret])
          else ([], False, instr'))"
  by (simp add: parse_loop_Cons)

lemma parse_loop_plain:
  "plain_char c \<Longrightarrow> parse_loop vg (c # instr) found ret = parse_loop vg instr found (ret @ [[c]])"
  by (simp add: parse_loop_Cons plain_char_def)

lemma parse_loop_plain_run:
  "list_all plain_char t \<Longrightarrow>
   parse_loop vg (t @ instr) found ret = parse_loop vg instr found (ret @ map (\<lambda>c. [c]) t)"
  by (induction t arbitrary: ret) (simp_all add: parse_loop_plain)

lemma concat_singletons: "concat (map (\<lambda>c. [c]) t) = t"
  by (induction t) simp_all

lemma scan_key_end: "e \<notin> set k \<Longrightarrow> scan_key e (k @ e # instr) = k"
  unfolding scan_key_def by (subst takeWhile_append2) auto

lemma after_key_end: "e \<notin> set k \<Longrightarrow> after_key e (k @ e # instr) = instr"
  unfolding after_key_def by (subst dropWhile_append2) auto

lemma scan_key_none: "e \<notin> set k \<Longrightarrow> scan_key e k = k"
  unfolding scan_key_def by (rule takeWhile_eq_all_conv [THEN iffD2]) auto

lemma after_key_none: "e \<notin> set k \<Longrightarrow> after_key e k = []"
proof -
  assume "e \<notin> set k"
  then have "dropWhile (\<lambda>x. x \<noteq> e) k = []"
    by (intro dropWhile_eq_Nil_conv [THEN iffD2]) auto
  then show ?thesis
    unfolding after_key_def by (simp only: drop_Nil)
qed

lemma char_cases:
  obtains (percent) "c = CHR ''%''" | (brace) "c = CHR ''{''" | (hash) "c = CHR ''#''"
    | (backslash) "c = CHR 0x5C" | (opn) "c = CHR ''[''" | (cls) "c = CHR '']''"
    | (alt) "c = CHR ''|''" | (conj) "c = CHR ''&''" | (plain) "plain_char c"
  unfolding plain_char_def by auto

lemma returned_simps:
  "returned (out, f, [])" "returned (out, True, rest)" "returned ([], f, rest)"
  by (simp_all add: returned_def)

lemma parse_loop_returned: "returned (parse_loop vg instr found ret)"
proof (induction "length instr" arbitrary: instr found ret rule: less_induct)
  case less
  show ?case
  proof (cases instr)
    case Nil
    then show ?thesis by (simp add: returned_simps)
  next
    case (Cons c cs)
    have IH: "returned (parse_loop vg i f r)" if "suffix i cs" for i f r
      using less [of i f r] suffix_length_le [OF that] Cons by simp
    show ?thesis
    proof (cases c rule: char_cases)
      case percent
      then show ?thesis
        by (simp add: Cons parse_loop_percent IH after_key_suffix)
    next
      case brace
      then show ?thesis
        by (simp add: Cons parse_loop_brace IH after_key_suffix)
    next
      case hash
      then show ?thesis
        by (cases cs) (simp_all add: Cons parse_loop_hash IH suffix_ConsI returned_simps)
    next
      case backslash
      then show ?thesis
        by (cases cs) (simp_all add: Cons parse_loop_backslash IH suffix_ConsI returned_simps)
    next
      case opn
      obtain subret found' instr' where sub: "parse_loop vg cs found [] = (subret, found', instr')"
        by (cases "parse_loop vg cs found []") auto
      from opn sub show ?thesis
        by (simp add: Cons parse_loop_open IH parse_loop_suffix [OF sub])
    next
      case cls
      then show ?thesis
        by (simp add: Cons parse_loop_close returned_simps)
    next
      case alt
      obtain subret subfound instr' where sub: "parse_loop vg cs found [] = (subret, subfound, instr')"
        by (cases "parse_loop vg cs found []") auto
      from alt sub show ?thesis
        by (simp add: Cons parse_loop_alt IH parse_loop_suffix [OF sub] returned_simps)
    next
      case conj
      obtain subret subfound instr' where sub: "parse_loop vg cs found [] = (subret, subfound, instr')"
        by (cases "parse_loop vg cs found []") auto
      from conj sub show ?thesis
        by (simp add: Cons parse_loop_conj IH parse_loop_suffix [OF sub] returned_simps)
    next
      case plain
      then show ?thesis
        by (simp add: Cons parse_loop_plain IH)
    qed
  qed
qed

section \<open>The recursion limit\<close>

text \<open>
  Every call of \<open>parse_template\<close> from itself, at \<open>[\<close>, \<open>|\<close> and \<open>&\<close>, takes one more
  frame of the interpreter's call stack, and nothing in the function bounds the depth:
  at the interpreter's recursion limit the call raises \<open>RecursionError\<close>, which no
  handler of the module catches.
\<close>

datatype stack_error = RecursionError

text \<open>
  The loop of \<open>parse_template\<close> once more, with the number of further nested calls that
  the interpreter still allows as its first argument; the recursion limit and the depth
  of the stack at the first call decide that number. A recursive call with no frame left
  raises; an exception of a recursive call passes through the calling scope. The frames
  of the value getter and of the library calls are taken to fit.
\<close>

function parse_loop_limited ::
  "nat \<Rightarrow> value_getter \<Rightarrow> string \<Rightarrow> bool \<Rightarrow> string list
     \<Rightarrow> stack_error + (string \<times> bool \<times> string)"
where
  "parse_loop_limited depth vg [] found ret = Inr (concat ret, found, [])"
| "parse_loop_limited depth vg (c # instr) found ret =
     (if c = CHR ''%'' \<or> c = CHR ''{'' then
        (let endchar = (if c = CHR ''%'' then CHR ''%'' else CHR ''}'');
             key = scan_key endchar instr;
             val = vg key
         in if val \<noteq> []
            then parse_loop_limited depth vg (after_key endchar instr) True (ret @ [val])
            else parse_loop_limited depth vg (after_key endchar instr) False ret)
      else if c = CHR ''#'' then
        (case instr of
           [] \<Rightarrow> parse_loop_limited depth vg [] found (ret @ [''#''])
         | n # instr' \<Rightarrow> parse_loop_limited depth vg instr' found (ret @ [[n]]))
      else if c = CHR 0x5C then
        (case instr of
           [] \<Rightarrow> parse_loop_limited depth vg [] found (ret @ [[CHR 0x5C]])
         | ln # instr' \<Rightarrow>
             if ln \<in> escape_letters
             then parse_loop_limited depth vg instr' found (ret @ [[escape_char ln]])
             else parse_loop_limited depth vg instr' found (ret @ [[ln]]))
      else if c = CHR ''['' then
        (if depth = 0 then Inl RecursionError
         else
           (case parse_loop_limited (depth - 1) vg instr found [] of
              Inl e \<Rightarrow> Inl e
            | Inr sub \<Rightarrow>
                (case sub of
                   (subret, found', instr') \<Rightarrow>
                     parse_loop_limited depth vg instr' found' (ret @ [subret]))))
      else if c = CHR '']'' then
        (if found then Inr (concat ret, True, instr) else Inr ([], False, instr))
      else if c = CHR ''|'' then
        (if depth = 0 then Inl RecursionError
         else
           (case parse_loop_limited (depth - 1) vg instr found [] of
              Inl e \<Rightarrow> Inl e
            | Inr sub \<Rightarrow>
                (case sub of
                   (subret, subfound, instr') \<Rightarrow>
                     if found then parse_loop_limited depth vg instr' found ret
                     else if subfound
                     then parse_loop_limited depth vg instr' True (ret @ [subret])
                     else Inr ([], False, instr'))))
      else if c = CHR ''&'' then
        (if depth = 0 then Inl RecursionError
         else
           (case parse_loop_limited (depth - 1) vg instr found [] of
              Inl e \<Rightarrow> Inl e
            | Inr sub \<Rightarrow>
                (case sub of
                   (subret, subfound, instr') \<Rightarrow>
                     if found \<and> subfound
                     then parse_loop_limited depth vg instr' found (ret @ [subret])
                     else Inr ([], False, instr'))))
      else parse_loop_limited depth vg instr found (ret @ [[c]]))"
  by pat_completeness auto

lemma parse_loop_limited_dom_refines:
  "parse_loop_limited_dom (depth, vg, instr, found, ret) \<Longrightarrow>
   parse_loop_limited depth vg instr found ret = Inr r \<Longrightarrow>
   r = parse_loop vg instr found ret"
proof (induction depth vg instr found ret arbitrary: r rule: parse_loop_limited.pinduct)
  case (1 depth vg found ret)
  then show ?case by (simp add: parse_loop_limited.psimps)
next
  case (2 depth vg c instr found ret)
  note unf = parse_loop_limited.psimps(2) [OF "2.hyps"]
  note res = "2.prems" [unfolded unf]
  consider (ph) "c = CHR ''%'' \<or> c = CHR ''{''"
    | (hash) "c = CHR ''#''"
    | (bs) "c = CHR 0x5C"
    | (opn) "c = CHR ''[''"
    | (cls) "c = CHR '']''"
    | (alt) "c = CHR ''|''"
    | (conj) "c = CHR ''&''"
    | (lit) "\<not> (c = CHR ''%'' \<or> c = CHR ''{'')" "c \<noteq> CHR ''#''" "c \<noteq> CHR 0x5C"
        "c \<noteq> CHR ''[''" "c \<noteq> CHR '']''" "c \<noteq> CHR ''|''" "c \<noteq> CHR ''&''"
    by blast
  then show ?case
  proof cases
    case ph
    define e where "e = (if c = CHR ''%'' then CHR ''%'' else CHR ''}'')"
    have pl: "parse_loop vg (c # instr) found ret =
        (if vg (scan_key e instr) \<noteq> []
         then parse_loop vg (after_key e instr) True (ret @ [vg (scan_key e instr)])
         else parse_loop vg (after_key e instr) False ret)"
      using ph by (simp add: parse_loop_Cons e_def Let_def)
    show ?thesis
    proof (cases "vg (scan_key e instr) = []")
      case True
      with ph res have "parse_loop_limited depth vg (after_key e instr) False ret = Inr r"
        by (simp add: e_def Let_def)
      with "2.IH"(2) [OF ph e_def refl refl] True pl show ?thesis
        by simp
    next
      case False
      with ph res have "parse_loop_limited depth vg (after_key e instr) True
          (ret @ [vg (scan_key e instr)]) = Inr r"
        by (simp add: e_def Let_def)
      with "2.IH"(1) [OF ph e_def refl refl] False pl show ?thesis
        by simp
    qed
  next
    case hash
    then have n: "\<not> (c = CHR ''%'' \<or> c = CHR ''{'')"
      by simp
    show ?thesis
    proof (cases instr)
      case Nil
      with res hash "2.IH"(3) [OF n hash Nil] show ?thesis
        by (simp add: parse_loop_hash)
    next
      case (Cons d instr')
      with res hash "2.IH"(4) [OF n hash Cons] show ?thesis
        by (simp add: parse_loop_hash)
    qed
  next
    case bs
    then have n: "\<not> (c = CHR ''%'' \<or> c = CHR ''{'')" "c \<noteq> CHR ''#''"
      by simp_all
    show ?thesis
    proof (cases instr)
      case Nil
      with res bs "2.IH"(5) [OF n bs Nil] show ?thesis
        by (simp add: parse_loop_backslash)
    next
      case (Cons ln instr')
      show ?thesis
      proof (cases "ln \<in> escape_letters")
        case True
        with res bs Cons "2.IH"(6) [OF n bs Cons True] show ?thesis
          by (simp add: parse_loop_backslash)
      next
        case False
        with res bs Cons "2.IH"(7) [OF n bs Cons False] show ?thesis
          by (simp add: parse_loop_backslash)
      qed
    qed
  next
    case opn
    then have n: "\<not> (c = CHR ''%'' \<or> c = CHR ''{'')" "c \<noteq> CHR ''#''" "c \<noteq> CHR 0x5C"
      by simp_all
    from res opn have d: "depth \<noteq> 0"
      by (auto split: if_splits)
    from res opn d obtain sub where
      sub: "parse_loop_limited (depth - 1) vg instr found [] = Inr sub"
      by (cases "parse_loop_limited (depth - 1) vg instr found []") simp_all
    obtain subret found' instr' where s: "sub = (subret, found', instr')"
      by (cases sub) auto
    have inner: "parse_loop vg instr found [] = (subret, found', instr')"
      using "2.IH"(8) [OF n opn d sub] s by simp
    from res have "parse_loop_limited depth vg instr' found' (ret @ [subret]) = Inr r"
      by (simp add: n opn d sub s del: One_nat_def)
    then have "r = parse_loop vg instr' found' (ret @ [subret])"
      by (rule "2.IH"(9) [OF n opn d sub s [symmetric] refl])
    then show ?thesis
      by (simp add: opn parse_loop_open inner)
  next
    case cls
    with res show ?thesis
      by (auto simp: parse_loop_close split: if_splits)
  next
    case alt
    then have n: "\<not> (c = CHR ''%'' \<or> c = CHR ''{'')" "c \<noteq> CHR ''#''" "c \<noteq> CHR 0x5C"
      "c \<noteq> CHR ''[''" "c \<noteq> CHR '']''"
      by simp_all
    from res alt have d: "depth \<noteq> 0"
      by (auto split: if_splits)
    from res alt d obtain sub where
      sub: "parse_loop_limited (depth - 1) vg instr found [] = Inr sub"
      by (cases "parse_loop_limited (depth - 1) vg instr found []") simp_all
    obtain subret subfound instr' where s: "sub = (subret, subfound, instr')"
      by (cases sub) auto
    have inner: "parse_loop vg instr found [] = (subret, subfound, instr')"
      using "2.IH"(10) [OF n alt d sub] s by simp
    note ih1 = "2.IH"(11) [OF n alt d sub s [symmetric] refl]
    note ih2 = "2.IH"(12) [OF n alt d sub s [symmetric] refl]
    from res have q: "(if found then parse_loop_limited depth vg instr' found ret
        else if subfound then parse_loop_limited depth vg instr' True (ret @ [subret])
        else Inr ([], False, instr')) = Inr r"
      by (simp add: n alt d sub s del: One_nat_def)
    have "r = (if found then parse_loop vg instr' found ret
        else if subfound then parse_loop vg instr' True (ret @ [subret])
        else ([], False, instr'))"
    proof (cases found)
      case True
      with q ih1 show ?thesis by simp
    next
      case False
      show ?thesis
      proof (cases subfound)
        case True
        with q \<open>\<not> found\<close> ih2 show ?thesis by simp
      next
        case False
        with q \<open>\<not> found\<close> show ?thesis by simp
      qed
    qed
    then show ?thesis
      by (simp add: alt parse_loop_alt inner)
  next
    case conj
    then have n: "\<not> (c = CHR ''%'' \<or> c = CHR ''{'')" "c \<noteq> CHR ''#''" "c \<noteq> CHR 0x5C"
      "c \<noteq> CHR ''[''" "c \<noteq> CHR '']''" "c \<noteq> CHR ''|''"
      by simp_all
    from res conj have d: "depth \<noteq> 0"
      by (auto split: if_splits)
    from res conj d obtain sub where
      sub: "parse_loop_limited (depth - 1) vg instr found [] = Inr sub"
      by (cases "parse_loop_limited (depth - 1) vg instr found []") simp_all
    obtain subret subfound instr' where s: "sub = (subret, subfound, instr')"
      by (cases sub) auto
    have inner: "parse_loop vg instr found [] = (subret, subfound, instr')"
      using "2.IH"(13) [OF n conj d sub] s by simp
    note ih = "2.IH"(14) [OF n conj d sub s [symmetric] refl]
    from res have q: "(if found \<and> subfound
        then parse_loop_limited depth vg instr' found (ret @ [subret])
        else Inr ([], False, instr')) = Inr r"
      by (simp add: n conj d sub s del: One_nat_def)
    have "r = (if found \<and> subfound then parse_loop vg instr' found (ret @ [subret])
        else ([], False, instr'))"
    proof (cases "found \<and> subfound")
      case True
      with q ih show ?thesis by simp
    next
      case False
      with q show ?thesis by auto
    qed
    then show ?thesis
      by (simp add: conj parse_loop_conj inner)
  next
    case lit
    from res lit have "parse_loop_limited depth vg instr found (ret @ [[c]]) = Inr r"
      by simp
    then have "r = parse_loop vg instr found (ret @ [[c]])"
      by (rule "2.IH"(15) [OF lit])
    with lit show ?thesis
      by (simp add: parse_loop_Cons)
  qed
qed

lemma parse_loop_limited_all_dom: "All parse_loop_limited_dom"
proof (relation "measure (\<lambda>(depth, vg, instr, found, ret). length instr)")
  show "wf (measure (\<lambda>(depth, vg, instr, found, ret). length instr))" by simp
qed (auto simp: after_key_length less_Suc_eq_le
    dest!: parse_loop_limited_dom_refines dest: parse_loop_suffix [OF sym] suffix_length_le)

termination parse_loop_limited
  by (rule parse_loop_limited_all_dom)






declare parse_loop_limited.simps(2) [simp del]














section \<open>Formatting of numbers\<close>

declare decimal.simps [simp del]

lemma decimal_digit: "n < 10 \<Longrightarrow> decimal n = [digit_char n]"
  by (subst decimal.simps) simp

lemma decimal_two_digits:
  "10 \<le> n \<Longrightarrow> n < 100 \<Longrightarrow> decimal n = [digit_char (n div 10), digit_char (n mod 10)]"
  by (subst decimal.simps) (simp add: decimal_digit)

lemma format_02d_seconds:
  "n < 60 \<Longrightarrow> format_02d (int n) = [digit_char (n div 10), digit_char (n mod 10)]"
proof (cases "n < 10")
  case True
  then show ?thesis
    by (simp add: format_02d_def decimal_digit digit_char_def)
next
  case False
  assume "n < 60"
  with False show ?thesis
    by (simp add: format_02d_def decimal_two_digits)
qed

section \<open>The claims\<close>

subsection \<open>The resolver and the width limit\<close>

text \<open>
  Claim C1 says that \<open>song_attr\<close> never fails and gives the empty text for absent or
  invalid field data. The branches for \<open>time\<close> and \<open>position\<close> catch \<open>KeyError\<close> and
  \<open>ValueError\<close>; the branches for \<open>mtime\<close> and \<open>mdate\<close> have no handler. For a song
  without a \<open>last-modified\<close> field, the fields \<open>mtime\<close> and \<open>mdate\<close> raise
  \<open>KeyError\<close>, whatever the library functions do: so for the record that
  \<open>current_track\<close> builds itself when the playlist has no such entry (the empty
  dictionary with the \<open>state\<close> label added), and so for a stream.
\<close>

theorem song_attr_mtime_raises:
  "song_attr lib [''state'' \<mapsto> ''[stop]''] ''mtime'' = Inl KeyError \<and>
   song_attr lib [''file'' \<mapsto> ''http://radio.example/stream'', ''pos'' \<mapsto> ''0''] ''mdate''
     = Inl KeyError"
  by (simp add: song_attr_def last_modified_def subscript_def)

text \<open>
  Claim C7: for the field \<open>time\<close>, a value that \<open>int\<close> reads as an integer above zero
  gives the minutes in decimal, a colon, and the seconds as exactly two digits; an absent
  value, one that \<open>int\<close> rejects, and an integer that is zero or negative give the empty
  text. This holds whatever \<open>int\<close> accepts.
\<close>

theorem time_format:
  "(song ''time'' = Some v \<and> py_int lib v = Some d \<and> 0 < d \<longrightarrow>
      song_attr lib song ''time'' =
        Inr (decimal (nat (d div 60)) @ '':'' @
             [digit_char (nat (d mod 60) div 10), digit_char (nat (d mod 60) mod 10)])) \<and>
   (song ''time'' = None \<longrightarrow> song_attr lib song ''time'' = Inr []) \<and>
   (song ''time'' = Some v \<and> py_int lib v = None \<longrightarrow> song_attr lib song ''time'' = Inr []) \<and>
   (song ''time'' = Some v \<and> py_int lib v = Some d \<and> d \<le> 0 \<longrightarrow>
      song_attr lib song ''time'' = Inr [])"
proof -
  have sec: "format_02d (d mod 60) = [digit_char (nat (d mod 60) div 10), digit_char (nat (d mod 60) mod 10)]"
  proof -
    have "nat (d mod 60) < 60" by simp
    from format_02d_seconds [OF this] show ?thesis by simp
  qed
  have mins: "format_d (d div 60) = decimal (nat (d div 60))" if "0 < d"
    using that by (simp add: format_d_def pos_imp_zdiv_neg_iff)
  show ?thesis
    using sec mins
    by (auto simp: song_attr_def try_time_def int_field_def subscript_def Let_def)
qed

theorem time_format_witness:
  "py_int example_lib ''125'' = Some 125 \<and> py_int example_lib ''soon'' = None \<and>
   py_int example_lib ''0'' = Some 0 \<and>
   song_attr example_lib [''time'' \<mapsto> ''125''] ''time'' = Inr ''2:05'' \<and>
   song_attr example_lib Map.empty ''time'' = Inr [] \<and>
   song_attr example_lib [''time'' \<mapsto> ''soon''] ''time'' = Inr [] \<and>
   song_attr example_lib [''time'' \<mapsto> ''0''] ''time'' = Inr []"
proof -
  have p1: "py_int example_lib ''125'' = Some 125"
    by code_simp
  have t1: "decimal (nat (125 div 60)) @ '':'' @
      [digit_char (nat (125 mod 60) div 10), digit_char (nat (125 mod 60) mod 10)] = ''2:05''"
    by code_simp
  have p2: "py_int example_lib ''soon'' = None"
    by code_simp
  have p3: "py_int example_lib ''0'' = Some 0"
    by code_simp
  from time_format [of "[''time'' \<mapsto> ''125'']" "''125''" example_lib 125]
    time_format [of Map.empty _ example_lib]
    time_format [of "[''time'' \<mapsto> ''soon'']" "''soon''" example_lib]
    time_format [of "[''time'' \<mapsto> ''0'']" "''0''" example_lib 0]
    p1 t1 p2 p3
  show ?thesis
    by simp
qed

text \<open>
  Claim C6 says that a text longer than \<open>max_width\<close> is cut down so that the result never
  exceeds \<open>max_width\<close> characters. The slice \<open>text[:-self.max_width - 3]\<close> removes the last
  \<open>max_width + 3\<close> characters instead of keeping the first \<open>max_width - 3\<close>: with the
  default width of 120, a text of 300 characters becomes one of 180 characters.
\<close>

theorem limit_width_overlong:
  "length (limit_width 120 (replicate 300 CHR ''a'')) = 180"
  by (simp add: limit_width_def slice_to_def)

subsection \<open>Plain templates\<close>

text \<open>
  Claim C2 says that a template with no placeholders, operators or brackets is returned
  unchanged, with \<open>found\<close> false for the empty template. As stated it fails twice: the
  empty template gives \<open>found = True\<close>, the default of the parameter that nothing resets,
  and the escape marker \<open>#\<close> is not copied.
\<close>

theorem render_plain_counterexample:
  "render [] (dict_getter Map.empty) = ([], True) \<and>
   render ''a#b'' (dict_getter Map.empty) = (''ab'', True)"
  by code_simp

text \<open>
  Claim C2, amended: a template that has no placeholder marker, no operator, no bracket
  and no escape marker (\<open>#\<close> or backslash) is returned unchanged, the stream is used up,
  and \<open>found\<close> keeps the value it started with, which is \<open>True\<close> for the call the module
  makes, also on the empty template.
\<close>

theorem render_plain:
  assumes "list_all plain_char template"
  shows "parse_template template vg found = (template, found, []) \<and>
         render template vg = (template, True)"
proof -
  have "parse_template template vg f = (template, f, [])" for f
    using parse_loop_plain_run [OF assms, of vg "[]" f "[]"]
    by (simp add: parse_template_def concat_singletons)
  then show ?thesis
    by (simp add: render_def)
qed

theorem render_plain_witness:
  "list_all plain_char ''Now playing: '' \<and>
   render ''Now playing: '' (dict_getter Map.empty) = (''Now playing: '', True)"
proof -
  have h: "list_all plain_char ''Now playing: ''"
    by (simp add: plain_char_def)
  from render_plain [OF h] show ?thesis
    using h by blast
qed

subsection \<open>Placeholders\<close>

text \<open>
  Claim C9: for a field name with none of the delimiter characters \<open>%\<close>, \<open>{\<close> and \<open>}\<close>,
  the placeholder written \<open>%name%\<close> and the one written \<open>{name}\<close> give the same result,
  as a whole template and in front of any rest of a template, from any state of the loop.
\<close>

theorem placeholder_delimiters:
  assumes "CHR ''%'' \<notin> set k" and "CHR ''{'' \<notin> set k" and "CHR ''}'' \<notin> set k"
  shows "render (CHR ''%'' # k @ ''%'') vg = render (CHR ''{'' # k @ ''}'') vg \<and>
         parse_loop vg (CHR ''%'' # k @ CHR ''%'' # instr) found ret =
         parse_loop vg (CHR ''{'' # k @ CHR ''}'' # instr) found ret"
  using assms
  by (simp add: render_def parse_template_def parse_loop_percent parse_loop_brace
      scan_key_end after_key_end)

theorem placeholder_delimiters_witness:
  "CHR ''%'' \<notin> set ''title'' \<and> CHR ''{'' \<notin> set ''title'' \<and> CHR ''}'' \<notin> set ''title'' \<and>
   render ''%title%'' (dict_getter [''title'' \<mapsto> ''Blue'']) = (''Blue'', True) \<and>
   render ''{title}'' (dict_getter [''title'' \<mapsto> ''Blue'']) = (''Blue'', True)"
proof -
  have h: "CHR ''%'' \<notin> set ''title''" "CHR ''{'' \<notin> set ''title''" "CHR ''}'' \<notin> set ''title''"
    by simp_all
  have e: "render ''%title%'' (dict_getter [''title'' \<mapsto> ''Blue'']) = (''Blue'', True)"
    by code_simp
  from placeholder_delimiters [OF h, of "dict_getter [''title'' \<mapsto> ''Blue'']"] e h
  show ?thesis
    by simp
qed

text \<open>
  Claim C10 says that in every template with a placeholder start marker that its end
  marker never follows, \<open>render\<close> appends the resolved value when it is not empty. As
  stated it fails where an operator or a bracket stands before the marker: after \<open>a|\<close>
  the value belongs to the alternative that a found scope drops, and a \<open>]\<close> at the top
  level ends the parse before the marker is read.
\<close>

theorem unterminated_placeholder_counterexample:
  "render ''a|%x'' (dict_getter [''x'' \<mapsto> ''V'']) = (''a'', True) \<and>
   render '']%x'' (dict_getter [''x'' \<mapsto> ''V'']) = ([], True)"
  by code_simp

text \<open>
  Claim C10, amended: when the loop of a scope reads a placeholder start marker that its
  end marker never follows, all the remaining characters are the field name, the result
  depends on the value getter through its value at that name only, and the scope returns
  at the end of the input with the value appended to its text when the value is not
  empty, the flag telling whether it is; none of the characters after the marker reaches
  the text. For a template whose text before the marker is plain, \<open>render\<close> returns that
  text followed by the value.
\<close>

theorem unterminated_placeholder:
  assumes "(c = CHR ''%'' \<and> CHR ''%'' \<notin> set name) \<or> (c = CHR ''{'' \<and> CHR ''}'' \<notin> set name)"
  shows "parse_loop vg (c # name) found ret = (concat ret @ vg name, vg name \<noteq> [], []) \<and>
         (list_all plain_char pre \<longrightarrow>
            render (pre @ c # name) vg = (pre @ vg name, vg name \<noteq> []))"
proof -
  have loop: "parse_loop vg (c # name) f r = (concat r @ vg name, vg name \<noteq> [], [])" for f r
    using assms
    by (auto simp: parse_loop_percent parse_loop_brace scan_key_none after_key_none)
  have "render (pre @ c # name) vg = (pre @ vg name, vg name \<noteq> [])" if "list_all plain_char pre"
    using parse_loop_plain_run [OF that, of vg "c # name" True "[]"]
    by (simp add: render_def parse_template_def loop concat_singletons)
  with loop show ?thesis
    by blast
qed

theorem unterminated_placeholder_witness:
  "CHR ''}'' \<notin> set ''title] end'' \<and> CHR ''%'' \<notin> set ''title] end'' \<and>
   list_all plain_char ''on: '' \<and>
   render ''on: {title] end'' (dict_getter [''title] end'' \<mapsto> ''Blue'']) = (''on: Blue'', True) \<and>
   render ''on: {title] end'' (dict_getter [''title'' \<mapsto> ''Blue'']) = (''on: '', False) \<and>
   render ''on: %title] end'' (dict_getter [''title'' \<mapsto> ''Blue'']) = (''on: '', False)"
proof -
  let ?name = "''title] end''"
  have h: "CHR ''}'' \<notin> set ?name" "CHR ''%'' \<notin> set ?name"
    by simp_all
  have p: "list_all plain_char ''on: ''"
    by (simp add: plain_char_def)
  have a: "(CHR ''{'' = CHR ''%'' \<and> CHR ''%'' \<notin> set ?name) \<or>
           (CHR ''{'' = CHR ''{'' \<and> CHR ''}'' \<notin> set ?name)"
    by simp
  have b: "(CHR ''%'' = CHR ''%'' \<and> CHR ''%'' \<notin> set ?name) \<or>
           (CHR ''%'' = CHR ''{'' \<and> CHR ''}'' \<notin> set ?name)"
    by simp
  have v1: "dict_getter [''title] end'' \<mapsto> ''Blue''] ?name = ''Blue''"
    by (simp add: dict_getter_def)
  have v2: "dict_getter [''title'' \<mapsto> ''Blue''] ?name = []"
    by (simp add: dict_getter_def)
  from unterminated_placeholder [OF a, of "dict_getter [''title] end'' \<mapsto> ''Blue'']" _ _ "''on: ''"]
    unterminated_placeholder [OF a, of "dict_getter [''title'' \<mapsto> ''Blue'']" _ _ "''on: ''"]
    unterminated_placeholder [OF b, of "dict_getter [''title'' \<mapsto> ''Blue'']" _ _ "''on: ''"]
    h p v1 v2
  show ?thesis
    by simp
qed

subsection \<open>Groups and operators\<close>

text \<open>
  Claim C3 says that a nested scope that ends with \<open>found\<close> false contributes nothing,
  and that an unmatched \<open>[\<close> behaves as if it were closed at the end of the input. As
  stated it fails: the \<open>return\<close> at the end of the input hands back the text whatever
  \<open>found\<close> is, so the unclosed group keeps the text that the closed group discards.
\<close>

theorem optional_group_semantics_counterexample:
  "render ''[abc%x%'' (dict_getter Map.empty) = (''abc'', False) \<and>
   render ''[abc%x%]'' (dict_getter Map.empty) = ([], False)"
  by code_simp

text \<open>
  Claim C3, amended: a scope that reads \<open>]\<close> with \<open>found\<close> false returns the empty text
  and \<open>False\<close>; more generally a nested scope that returns \<open>False\<close> before the end of
  the input returns the empty text; the enclosing scope appends whatever text the nested
  scope returns and takes over its flag; at the end of the input a scope returns its text
  and its flag as they are, so that an unmatched \<open>[\<close> raises nothing and keeps its text;
  and \<open>[%a%\<close> with \<open>a\<close> resolving to \<open>Z\<close> renders as \<open>Z\<close> with \<open>found\<close> true.
\<close>

theorem optional_group_semantics:
  "parse_loop vg (CHR '']'' # instr) False ret = ([], False, instr) \<and>
   (parse_template instr vg found = (subret, False, instr') \<and> instr' \<noteq> [] \<longrightarrow> subret = []) \<and>
   (parse_template instr vg found = (subret, found', instr') \<longrightarrow>
      parse_loop vg (CHR ''['' # instr) found ret = parse_loop vg instr' found' (ret @ [subret])) \<and>
   parse_loop vg [] found ret = (concat ret, found, []) \<and>
   render ''[%a%'' (dict_getter [''a'' \<mapsto> ''Z'']) = (''Z'', True)"
proof -
  have discard: "subret = []"
    if "parse_template instr vg found = (subret, False, instr')" "instr' \<noteq> []"
    using parse_loop_returned [of vg instr found "[]"] that
    by (simp add: parse_template_def returned_def)
  have example: "render ''[%a%'' (dict_getter [''a'' \<mapsto> ''Z'']) = (''Z'', True)"
    by code_simp
  show ?thesis
    using discard example
    by (auto simp: parse_loop_close parse_loop_open parse_template_def)
qed

theorem optional_group_semantics_witness:
  "parse_template ''%x%]d'' (dict_getter Map.empty) True = ([], False, ''d'') \<and> ''d'' \<noteq> [] \<and>
   parse_loop (dict_getter Map.empty) ''[%x%]d'' True [''c''] = (''cd'', False, [])"
proof -
  let ?g = "dict_getter Map.empty"
  have h: "parse_template ''%x%]d'' ?g True = ([], False, ''d'')"
    by code_simp
  have k: "parse_loop ?g ''d'' False ([''c''] @ [[]]) = (''cd'', False, [])"
    by code_simp
  from optional_group_semantics [where vg = ?g and instr = "''%x%]d''" and found = True and subret = "[]"
      and instr' = "''d''" and found' = False and ret = "[''c'']"] h k
  show ?thesis
    by simp
qed

text \<open>
  Claim C4: at \<open>|\<close> the rest of the scope is parsed by a recursive call that starts from
  the current flag and consumes characters of the shared stream. If the scope is found,
  the alternative's text is dropped and the loop goes on after what the call consumed; if
  the scope is not found and the alternative is, its text is appended and the scope is
  found; if neither is, the scope returns the empty text and \<open>False\<close> at once. The
  fallback example of the specification renders as \<open>X\<close>.
\<close>

theorem alt_operator_semantics:
  assumes "parse_template instr vg found = (subret, subfound, instr')"
  shows "(found \<longrightarrow>
            parse_loop vg (CHR ''|'' # instr) found ret = parse_loop vg instr' True ret) \<and>
         (\<not> found \<and> subfound \<longrightarrow>
            parse_loop vg (CHR ''|'' # instr) found ret = parse_loop vg instr' True (ret @ [subret])) \<and>
         (\<not> found \<and> \<not> subfound \<longrightarrow>
            parse_loop vg (CHR ''|'' # instr) found ret = ([], False, instr')) \<and>
         suffix instr' instr \<and>
         render ''[%missing%]|[%present%]'' (dict_getter [''present'' \<mapsto> ''X'']) = (''X'', True)"
proof -
  have sub: "parse_loop vg instr found [] = (subret, subfound, instr')"
    using assms by (simp add: parse_template_def)
  have example:
    "render ''[%missing%]|[%present%]'' (dict_getter [''present'' \<mapsto> ''X'']) = (''X'', True)"
    by code_simp
  show ?thesis
    using sub parse_loop_suffix [OF sub] example
    by (cases found) (simp_all add: parse_loop_alt)
qed

theorem alt_operator_semantics_witness:
  "parse_template ''b]c'' (dict_getter [''present'' \<mapsto> ''X'']) True = (''b'', True, ''c'') \<and>
   parse_loop (dict_getter [''present'' \<mapsto> ''X'']) ''|b]c'' True [''a''] = (''ac'', True, []) \<and>
   parse_template ''[%present%]'' (dict_getter [''present'' \<mapsto> ''X'']) False = (''X'', True, []) \<and>
   parse_loop (dict_getter [''present'' \<mapsto> ''X'']) ''|[%present%]'' False [] = (''X'', True, []) \<and>
   parse_template ''%missing%]z'' (dict_getter [''present'' \<mapsto> ''X'']) False = ([], False, ''z'') \<and>
   parse_loop (dict_getter [''present'' \<mapsto> ''X'']) ''|%missing%]z'' False [''q''] = ([], False, ''z'')"
proof -
  let ?g = "dict_getter [''present'' \<mapsto> ''X'']"
  have h1: "parse_template ''b]c'' ?g True = (''b'', True, ''c'')"
    by code_simp
  have k1: "parse_loop ?g ''c'' True [''a''] = (''ac'', True, [])"
    by code_simp
  have h2: "parse_template ''[%present%]'' ?g False = (''X'', True, [])"
    by code_simp
  have h3: "parse_template ''%missing%]z'' ?g False = ([], False, ''z'')"
    by code_simp
  from alt_operator_semantics [OF h1, of "[''a'']"] alt_operator_semantics [OF h2, of "[]"]
    alt_operator_semantics [OF h3, of "[''q'']"] h1 k1 h2 h3
    parse_loop.simps(1) [of ?g True "[] @ [''X'']"]
  show ?thesis
    by simp
qed

text \<open>
  Claim C5: at \<open>&\<close> the rest of the scope is parsed by a recursive call; its text is
  appended, the scope staying found, only when the scope and the call are both found;
  otherwise the scope returns the empty text and \<open>False\<close> at once. The example of the
  specification renders as the empty text with \<open>found\<close> false.
\<close>

theorem conj_operator_semantics:
  assumes "parse_template instr vg found = (subret, subfound, instr')"
  shows "(found \<and> subfound \<longrightarrow>
            parse_loop vg (CHR ''&'' # instr) found ret = parse_loop vg instr' True (ret @ [subret])) \<and>
         (\<not> (found \<and> subfound) \<longrightarrow>
            parse_loop vg (CHR ''&'' # instr) found ret = ([], False, instr')) \<and>
         suffix instr' instr \<and>
         render ''[%a%]&[%b%]'' (dict_getter [''a'' \<mapsto> ''1'', ''b'' \<mapsto> '''']) = ([], False)"
proof -
  have sub: "parse_loop vg instr found [] = (subret, subfound, instr')"
    using assms by (simp add: parse_template_def)
  have example:
    "render ''[%a%]&[%b%]'' (dict_getter [''a'' \<mapsto> ''1'', ''b'' \<mapsto> '''']) = ([], False)"
    by code_simp
  show ?thesis
    using sub parse_loop_suffix [OF sub] example
    by (cases found) (simp_all add: parse_loop_conj)
qed

theorem conj_operator_semantics_witness:
  "parse_template ''[%b%]]z'' (dict_getter [''a'' \<mapsto> ''1'', ''b'' \<mapsto> ''2'']) True = (''2'', True, ''z'') \<and>
   parse_loop (dict_getter [''a'' \<mapsto> ''1'', ''b'' \<mapsto> ''2'']) ''&[%b%]]z'' True [''1''] = (''12z'', True, []) \<and>
   parse_template ''[%c%]]z'' (dict_getter [''a'' \<mapsto> ''1'', ''b'' \<mapsto> ''2'']) True = ([], False, ''z'') \<and>
   parse_loop (dict_getter [''a'' \<mapsto> ''1'', ''b'' \<mapsto> ''2'']) ''&[%c%]]z'' True [''1''] = ([], False, ''z'')"
proof -
  let ?g = "dict_getter [''a'' \<mapsto> ''1'', ''b'' \<mapsto> ''2'']"
  have h1: "parse_template ''[%b%]]z'' ?g True = (''2'', True, ''z'')"
    by code_simp
  have k1: "parse_loop ?g ''z'' True ([''1''] @ [''2'']) = (''12z'', True, [])"
    by code_simp
  have h2: "parse_template ''[%c%]]z'' ?g True = ([], False, ''z'')"
    by code_simp
  from conj_operator_semantics [OF h1, of "[''1'']"] conj_operator_semantics [OF h2, of "[''1'']"] h1 k1 h2
  show ?thesis
    by simp
qed

subsection \<open>Termination\<close>




end
